theory Spec2Isabelle
  imports Main
begin

section \<open>Text and characters\<close>

text \<open>
  The bundler of \<^verbatim>\<open>bundle.py\<close> works on Python \<^verbatim>\<open>str\<close> values. A text is modelled as a
  \<^typ>\<open>string\<close>, one \<^typ>\<open>char\<close> per code point; the model covers the code points below 256,
  and \<open>upper_char\<close> changes the ASCII letters only.
\<close>

definition nl :: char where
  "nl = CHR 0x0A"

definition squote :: char where
  "squote = CHR 0x27"

definition dquote :: char where
  "dquote = CHR 0x22"

text \<open>\<^verbatim>\<open>str.isspace\<close> on one code point; the regular expression class \<^verbatim>\<open>\s\<close> of a
  \<^verbatim>\<open>str\<close> pattern and \<^verbatim>\<open>str.strip()\<close> use the same set.\<close>

definition isspace :: "char \<Rightarrow> bool" where
  "isspace c \<longleftrightarrow> c \<in> set [CHR 0x09, CHR 0x0A, CHR 0x0B, CHR 0x0C, CHR 0x0D,
      CHR 0x1C, CHR 0x1D, CHR 0x1E, CHR 0x1F, CHR 0x20, CHR 0x85, CHR 0xA0]"

section \<open>The regular expressions of \<^verbatim>\<open>remove_imports_exports\<close>\<close>

text \<open>
  The three patterns are sequences of the items below. \<open>Bol\<close> and \<open>Eol\<close> are \<^verbatim>\<open>^\<close> and
  \<^verbatim>\<open>$\<close> under \<^verbatim>\<open>re.MULTILINE\<close>; \<open>Star\<close> and \<open>Plus\<close> are the greedy \<^verbatim>\<open>*\<close> and \<^verbatim>\<open>+\<close> on a
  character class, \<open>LazyStar\<close> is \<^verbatim>\<open>*?\<close>, \<open>Opt\<close> is the greedy \<^verbatim>\<open>?\<close> on one character.
\<close>

datatype cclass = Space | AnyChar | NotBrace | Quote

fun in_class :: "cclass \<Rightarrow> char \<Rightarrow> bool" where
  "in_class Space c = isspace c"
| "in_class AnyChar c = (c \<noteq> nl)"
| "in_class NotBrace c = (c \<noteq> CHR ''}'')"
| "in_class Quote c = (c = squote \<or> c = dquote)"

datatype item = Bol | Eol | Lit char | Opt char | One cclass
  | Star cclass | Plus cclass | LazyStar cclass

text \<open>
  \<open>rmatch p b s\<close> runs the backtracking matcher of \<^verbatim>\<open>re\<close> for the pattern \<open>p\<close> at one
  position of the subject: \<open>s\<close> is the text from that position on and \<open>b\<close> says whether the
  position is the start of the subject or follows a newline. The result is the first
  match in the matcher's order of preference (a greedy item tries the longest repetition
  first, a lazy one the shortest): the text left after the match, and the flag there.
\<close>

fun rmatch :: "item list \<Rightarrow> bool \<Rightarrow> string \<Rightarrow> (bool \<times> string) option" where
  "rmatch [] b s = Some (b, s)"
| "rmatch (Bol # p) b s = (if b then rmatch p b s else None)"
| "rmatch (Eol # p) b s =
     (case s of [] \<Rightarrow> rmatch p b s
      | x # s' \<Rightarrow> if x = nl then rmatch p b s else None)"
| "rmatch (Lit c # p) b s =
     (case s of [] \<Rightarrow> None
      | x # s' \<Rightarrow> if x = c then rmatch p (x = nl) s' else None)"
| "rmatch (Opt c # p) b s =
     (case (case s of [] \<Rightarrow> None
            | x # s' \<Rightarrow> if x = c then rmatch p (x = nl) s' else None) of
        Some r \<Rightarrow> Some r
      | None \<Rightarrow> rmatch p b s)"
| "rmatch (One k # p) b s =
     (case s of [] \<Rightarrow> None
      | x # s' \<Rightarrow> if in_class k x then rmatch p (x = nl) s' else None)"
| "rmatch (Star k # p) b s =
     (case (case s of [] \<Rightarrow> None
            | x # s' \<Rightarrow> if in_class k x then rmatch (Star k # p) (x = nl) s' else None) of
        Some r \<Rightarrow> Some r
      | None \<Rightarrow> rmatch p b s)"
| "rmatch (Plus k # p) b s =
     (case s of [] \<Rightarrow> None
      | x # s' \<Rightarrow> if in_class k x then rmatch (Star k # p) (x = nl) s' else None)"
| "rmatch (LazyStar k # p) b s =
     (case rmatch p b s of
        Some r \<Rightarrow> Some r
      | None \<Rightarrow>
          (case s of [] \<Rightarrow> None
           | x # s' \<Rightarrow> if in_class k x then rmatch (LazyStar k # p) (x = nl) s' else None))"

text \<open>
  \<^verbatim>\<open>re.sub(pattern, repl, content, flags=re.MULTILINE)\<close> with a replacement that holds no
  group reference: from left to right, the text outside the matches is copied and every
  match, found at the leftmost position where the matcher succeeds, is replaced by
  \<open>repl\<close>; the search goes on where the match ended. The patterns of this program match
  no empty text; at an empty match the replacement is written and the search moves one
  character on.
\<close>

function re_sub :: "item list \<Rightarrow> string \<Rightarrow> bool \<Rightarrow> string \<Rightarrow> string" where
  "re_sub p repl b s =
     (case rmatch p b s of
        Some (b', r) \<Rightarrow>
          if length r < length s then repl @ re_sub p repl b' r
          else (case s of [] \<Rightarrow> repl | x # s' \<Rightarrow> repl @ x # re_sub p repl (x = nl) s')
      | None \<Rightarrow>
          (case s of [] \<Rightarrow> [] | x # s' \<Rightarrow> x # re_sub p repl (x = nl) s'))"
  by pat_completeness auto
termination
  by (relation "measure (\<lambda>(p, repl, b, s). length s)") auto

definition lits :: "string \<Rightarrow> item list" where
  "lits w = map Lit w"

text \<open>\<^verbatim>\<open>^import\s+.*?from\s+['"].*?['"];?\s*$\<close>\<close>

definition import_re :: "item list" where
  "import_re = Bol # lits ''import'' @ [Plus Space, LazyStar AnyChar] @ lits ''from''
     @ [Plus Space, One Quote, LazyStar AnyChar, One Quote, Opt (CHR '';''), Star Space, Eol]"

text \<open>\<^verbatim>\<open>^import\s+{[^}]*}\s+from\s+['"].*?['"];?\s*$\<close>\<close>

definition import_braces_re :: "item list" where
  "import_braces_re = Bol # lits ''import'' @ [Plus Space, Lit (CHR ''{''), Star NotBrace,
       Lit (CHR ''}''), Plus Space] @ lits ''from''
     @ [Plus Space, One Quote, LazyStar AnyChar, One Quote, Opt (CHR '';''), Star Space, Eol]"

text \<open>\<^verbatim>\<open>^export\s+\<close>\<close>

definition export_re :: "item list" where
  "export_re = Bol # lits ''export'' @ [Plus Space]"

definition remove_imports_exports :: "string \<Rightarrow> string" where
  "remove_imports_exports content =
     (let content = re_sub import_re [] True content;
          content = re_sub import_braces_re [] True content;
          content = re_sub export_re [] True content
      in content)"


section \<open>String operations of the bundler\<close>

text \<open>\<^verbatim>\<open>sep.join(xs)\<close>\<close>

fun join :: "string \<Rightarrow> string list \<Rightarrow> string" where
  "join sep [] = []"
| "join sep [x] = x"
| "join sep (x # y # xs) = x @ sep @ join sep (y # xs)"

text \<open>\<^verbatim>\<open>s.strip()\<close>: the whitespace at both ends is dropped.\<close>

definition strip :: "string \<Rightarrow> string" where
  "strip s = rev (dropWhile isspace (rev (dropWhile isspace s)))"

text \<open>\<^verbatim>\<open>os.path.basename(p)\<close> of \<^verbatim>\<open>posixpath\<close>: the text after the last slash.\<close>

definition basename :: "string \<Rightarrow> string" where
  "basename p = rev (takeWhile (\<lambda>c. c \<noteq> CHR ''/'') (rev p))"

text \<open>\<^verbatim>\<open>s.replace(old, new)\<close>: every occurrence of \<open>old\<close>, found from left to right without
  overlap, is replaced; an empty \<open>old\<close> puts \<open>new\<close> before every character and at the end.\<close>

function replace :: "string \<Rightarrow> string \<Rightarrow> string \<Rightarrow> string" where
  "replace old new s =
     (if old = [] then new @ concat (map (\<lambda>c. c # new) s)
      else if take (length old) s = old then new @ replace old new (drop (length old) s)
      else (case s of [] \<Rightarrow> [] | c # s' \<Rightarrow> c # replace old new s'))"
  by pat_completeness auto
termination
proof (relation "measure (\<lambda>(old, new, s). length s)")
  fix old new s :: string
  assume "old \<noteq> []" and "take (length old) s = old"
  then have "s \<noteq> []" by auto
  with \<open>old \<noteq> []\<close> show "((old, new, drop (length old) s), (old, new, s))
      \<in> measure (\<lambda>(old, new, s). length s)"
    by (cases s) auto
qed auto

definition upper_char :: "char \<Rightarrow> char" where
  "upper_char c =
     (let n = (of_char c :: nat) in if 97 \<le> n \<and> n \<le> 122 then char_of (n - 32) else c)"

text \<open>\<^verbatim>\<open>s.upper()\<close>\<close>

definition upper :: "string \<Rightarrow> string" where
  "upper s = map upper_char s"

text \<open>\<^verbatim>\<open>str(n)\<close> for a length, as an f-string prints it.\<close>

fun str_nat :: "nat \<Rightarrow> string" where
  "str_nat n =
     (if n < 10 then [char_of (48 + n)]
      else str_nat (n div 10) @ [char_of (48 + n mod 10)])"

section \<open>\<^verbatim>\<open>bundle_modules\<close>\<close>

text \<open>The module list of the source, in its declared order.\<close>

definition MODULES :: "string list" where
  "MODULES = [
     ''src/utils/DOMHelpers.js'',
     ''src/utils/DataSanitizer.js'',
     ''src/utils/Validators.js'',
     ''src/storage/StorageManager.js'',
     ''src/ui/UIManager.js'',
     ''src/extractors/DataExtractor.js'',
     ''src/scrapers/ProductScraper.js'',
     ''src/scrapers/BulkScraper.js'',
     ''src/address/AddressImporter.js'']"

text \<open>The two literal segments, line by line; a segment is its lines joined by newlines.\<close>

definition header_lines :: "string list" where
  \<open>header_lines = [
     ''/**'',
     '' * Amazon Scraper Extension - Bundled Refactored Version'',
     '' * All modules combined into a single file for Chrome extension compatibility'',
     '' *'',
     '' * Original structure:'',
     '' * - src/utils/        (DOMHelpers, DataSanitizer, Validators)'',
     '' * - src/extractors/   (DataExtractor)'',
     '' * - src/scrapers/     (ProductScraper, BulkScraper)'',
     '' * - src/address/      (AddressImporter)'',
     '' * - src/ui/           (UIManager)'',
     '' * - src/storage/      (StorageManager)'',
     '' */'',
     '''',
     ''"use strict";'',
     '''',
     '''']\<close>

definition header :: string where
  "header = join [nl] header_lines"

definition bootstrap_lines :: "string list" where
  "bootstrap_lines = [
     '''',
     ''// ========================================'',
     ''// MAIN APPLICATION'',
     ''// ========================================'',
     '''',
     ''class AmazonScraperApp {'',
     ''  constructor() {'',
     ''    this.productScraper = null;'',
     ''    this.bulkScraper = null;'',
     ''    this.addressImporter = null;'',
     ''    this.init();'',
     ''  }'',
     '''',
     ''  async init() {'',
     ''    if (document.readyState === 'loading') {'',
     ''      document.addEventListener('DOMContentLoaded', () => this.initializeFeatures());'',
     ''    } else {'',
     ''      this.initializeFeatures();'',
     ''    }'',
     '''',
     ''    UIManager.injectStyles();'',
     ''  }'',
     '''',
     ''  async initializeFeatures() {'',
     ''    if (DOMHelpers.isProductPage()) {'',
     ''      this.productScraper = new ProductScraper();'',
     ''      await this.productScraper.init();'',
     ''    }'',
     ''    else if (DOMHelpers.isCategoryPage()) {'',
     ''      this.bulkScraper = new BulkScraper();'',
     ''      await this.bulkScraper.init();'',
     ''    }'',
     '''',
     ''    if (DOMHelpers.isAddressPage()) {'',
     ''      this.addressImporter = new AddressImporter();'',
     ''      this.addressImporter.init();'',
     ''    }'',
     ''  }'',
     ''}'',
     '''',
     ''// Initialize the application'',
     ''new AmazonScraperApp();'',
     '''']"

definition bootstrap :: string where
  "bootstrap = join [nl] bootstrap_lines"

text \<open>
  What the run finds on disk: a path is absent (\<^verbatim>\<open>os.path.exists\<close> is false), a file that
  \<^verbatim>\<open>open\<close> and \<^verbatim>\<open>read\<close> return the text of, or an entry that exists and that \<^verbatim>\<open>open\<close> or
  \<^verbatim>\<open>read\<close> raise on (a directory, no permission, bytes that are not UTF-8). \<open>writable\<close>
  says whether \<^verbatim>\<open>content-refactored.js\<close> can be opened for writing and written.
\<close>

datatype fsentry = File string | Unreadable

record env =
  files :: "string \<Rightarrow> fsentry option"
  writable :: bool

datatype error = OSError string

text \<open>What a completed run leaves: the lines printed, and the text written to the
  output file.\<close>

record run =
  stdout :: "string list"
  written :: string

definition divider :: string where
  "divider = ''// ========================================''"

definition warning :: "string \<Rightarrow> string" where
  "warning module_path = ''Warning: '' @ module_path @ '' not found, skipping...''"

text \<open>The five segments one module adds to \<open>output\<close>.\<close>

text \<open>\<^verbatim>\<open>os.path.basename(module_path).replace('.js', '')\<close>\<close>

definition module_name_of :: "string \<Rightarrow> string" where
  "module_name_of module_path = replace ''.js'' [] (basename module_path)"

definition section_of :: "string \<Rightarrow> string \<Rightarrow> string list" where
  "section_of module_path content =
     (let content = remove_imports_exports content;
          content = strip content;
          module_name = module_name_of module_path
      in [nl # divider,
          ''// '' @ upper module_name @ '' MODULE'',
          divider @ [nl],
          content,
          [nl]])"

text \<open>The loop over the module list; the state is \<open>output\<close> and the lines printed so far.\<close>

fun bundle_loop :: "(string \<Rightarrow> fsentry option) \<Rightarrow> string list \<Rightarrow> string list \<times> string list
    \<Rightarrow> error + string list \<times> string list" where
  "bundle_loop fs [] st = Inr st"
| "bundle_loop fs (module_path # rest) (output, out) =
     (case fs module_path of
        None \<Rightarrow> bundle_loop fs rest (output, out @ [warning module_path])
      | Some Unreadable \<Rightarrow> Inl (OSError module_path)
      | Some (File content) \<Rightarrow>
          bundle_loop fs rest (output @ section_of module_path content, out))"

text \<open>\<^verbatim>\<open>bundle_modules\<close>, with the module list and the disk as arguments.\<close>

definition bundle_modules :: "string list \<Rightarrow> env \<Rightarrow> error + run" where
  "bundle_modules modules e =
     (case bundle_loop (files e) modules ([header], []) of
        Inl err \<Rightarrow> Inl err
      | Inr (output, out) \<Rightarrow>
          (let output = output @ [bootstrap];
               bundled_content = join [nl] output
           in if writable e then
                Inr \<lparr>stdout = out @
                       [''Successfully bundled '' @ str_nat (length modules)
                          @ '' modules into content-refactored.js'',
                        ''Total size: '' @ str_nat (length bundled_content) @ '' characters''],
                     written = bundled_content\<rparr>
              else Inl (OSError ''content-refactored.js'')))"

section \<open>Notions used to state the properties\<close>

text \<open>The text \<^verbatim>\<open>f.read()\<close> returns for a path; only used where the path is a readable file.\<close>

definition read_text :: "(string \<Rightarrow> fsentry option) \<Rightarrow> string \<Rightarrow> string" where
  "read_text fs p = (case fs p of Some (File c) \<Rightarrow> c | _ \<Rightarrow> [])"

definition readable :: "(string \<Rightarrow> fsentry option) \<Rightarrow> string \<Rightarrow> bool" where
  "readable fs p = (case fs p of Some (File c) \<Rightarrow> True | _ \<Rightarrow> False)"

text \<open>The segments and the warnings a module list gives, in closed form.\<close>

definition sections_of :: "(string \<Rightarrow> fsentry option) \<Rightarrow> string list \<Rightarrow> string list" where
  "sections_of fs ms =
     concat (map (\<lambda>p. section_of p (read_text fs p)) (filter (\<lambda>p. fs p \<noteq> None) ms))"

definition warnings_of :: "(string \<Rightarrow> fsentry option) \<Rightarrow> string list \<Rightarrow> string list" where
  "warnings_of fs ms = map warning (filter (\<lambda>p. fs p = None) ms)"

text \<open>The two lines printed at the end of a run, for a module count and a bundle text.\<close>

definition summary :: "nat \<Rightarrow> string \<Rightarrow> string list" where
  "summary n text =
     [''Successfully bundled '' @ str_nat n @ '' modules into content-refactored.js'',
      ''Total size: '' @ str_nat (length text) @ '' characters'']"

text \<open>
  The display name as the specification words it: the base name without its extension
  (the text from the last dot on), in upper case.
\<close>

definition strip_extension :: "string \<Rightarrow> string" where
  "strip_extension b =
     (if CHR ''.'' \<in> set b then rev (tl (dropWhile (\<lambda>c. c \<noteq> CHR ''.'') (rev b))) else b)"

definition spec_display_name :: "string \<Rightarrow> string" where
  "spec_display_name p = upper (strip_extension (basename p))"

text \<open>
  The variant of \<open>remove_imports_exports\<close> without the second substitution, the one for
  the pattern with braces.
\<close>

definition remove_imports_exports_variant :: "string \<Rightarrow> string" where
  "remove_imports_exports_variant content =
     (let content = re_sub import_re [] True content;
          content = re_sub export_re [] True content
      in content)"

text \<open>No line break stands between an opening brace and the closing brace after it.\<close>

fun braces_on_one_line :: "bool \<Rightarrow> string \<Rightarrow> bool" where
  "braces_on_one_line inside [] = True"
| "braces_on_one_line inside (c # s) =
     (if c = CHR ''{'' then braces_on_one_line True s
      else if c = CHR ''}'' then braces_on_one_line False s
      else if c = nl \<and> inside then False
      else braces_on_one_line inside s)"

text \<open>The lines of a text: the pieces between its newlines, so that joining them by
  newlines gives the text back.\<close>

fun lines_of :: "string \<Rightarrow> string list" where
  "lines_of [] = [[]]"
| "lines_of (c # s) =
     (if c = nl then [] # lines_of s
      else (case lines_of s of [] \<Rightarrow> [[c]] | l # ls \<Rightarrow> (c # l) # ls))"

text \<open>A line begins with the keyword \<open>w\<close> followed by whitespace, or is the keyword alone
  (the newline after it is whitespace).\<close>

definition starts_kw :: "string \<Rightarrow> string \<Rightarrow> bool" where
  "starts_kw w l \<longleftrightarrow>
     take (length w) l = w \<and> (case drop (length w) l of [] \<Rightarrow> True | c # _ \<Rightarrow> isspace c)"

text \<open>The text from a position on begins with the keyword \<open>w\<close> and a whitespace character.\<close>

definition kw_at :: "string \<Rightarrow> string \<Rightarrow> bool" where
  "kw_at w s \<longleftrightarrow>
     take (length w) s = w \<and> (case drop (length w) s of [] \<Rightarrow> False | c # _ \<Rightarrow> isspace c)"

text \<open>\<open>w\<close> occurs in \<open>s\<close>.\<close>

fun has_sub :: "string \<Rightarrow> string \<Rightarrow> bool" where
  "has_sub w [] = (w = [])"
| "has_sub w (c # s) = (take (length w) (c # s) = w \<or> has_sub w s)"

text \<open>
  A line that begins an import statement and breaks off inside its binding: after
  \<^verbatim>\<open>import\<close> and whitespace comes a character other than an opening brace, and the line
  holds no \<^verbatim>\<open>from\<close>.
\<close>

definition open_binding :: "string \<Rightarrow> bool" where
  "open_binding l \<longleftrightarrow>
     \<not> has_sub ''from'' l \<and>
     (case dropWhile isspace (drop 6 l) of [] \<Rightarrow> False | c # _ \<Rightarrow> c \<noteq> CHR ''{'')"

text \<open>
  All the matches of a pattern at a position, whatever their rank in the matcher's order
  of preference: \<open>matches p b s (b', r)\<close> says that \<open>p\<close> can match a prefix of \<open>s\<close> and
  leave \<open>r\<close>. The matcher \<open>rmatch\<close> returns one of them, and fails only when there is none.
\<close>

inductive matches :: "item list \<Rightarrow> bool \<Rightarrow> string \<Rightarrow> bool \<times> string \<Rightarrow> bool" where
  m_Nil: "matches [] b s (b, s)"
| m_Bol: "b \<Longrightarrow> matches p b s x \<Longrightarrow> matches (Bol # p) b s x"
| m_Eol_end: "matches p b [] x \<Longrightarrow> matches (Eol # p) b [] x"
| m_Eol_nl: "matches p b (nl # s) x \<Longrightarrow> matches (Eol # p) b (nl # s) x"
| m_Lit: "matches p (c = nl) s x \<Longrightarrow> matches (Lit c # p) b (c # s) x"
| m_Opt_take: "matches p (c = nl) s x \<Longrightarrow> matches (Opt c # p) b (c # s) x"
| m_Opt_skip: "matches p b s x \<Longrightarrow> matches (Opt c # p) b s x"
| m_One: "in_class k c \<Longrightarrow> matches p (c = nl) s x \<Longrightarrow> matches (One k # p) b (c # s) x"
| m_Star_stop: "matches p b s x \<Longrightarrow> matches (Star k # p) b s x"
| m_Star_step: "in_class k c \<Longrightarrow> matches (Star k # p) (c = nl) s x
     \<Longrightarrow> matches (Star k # p) b (c # s) x"
| m_Plus: "in_class k c \<Longrightarrow> matches (Star k # p) (c = nl) s x
     \<Longrightarrow> matches (Plus k # p) b (c # s) x"
| m_Lazy_stop: "matches p b s x \<Longrightarrow> matches (LazyStar k # p) b s x"
| m_Lazy_step: "in_class k c \<Longrightarrow> matches (LazyStar k # p) (c = nl) s x
     \<Longrightarrow> matches (LazyStar k # p) b (c # s) x"

text \<open>A line without the \<^verbatim>\<open>export\<close> keyword and the whitespace after it, when it begins
  with them.\<close>

definition strip_export :: "string \<Rightarrow> string" where
  "strip_export l = (if starts_kw ''export'' l then dropWhile isspace (drop 6 l) else l)"

text \<open>A line of whitespace only.\<close>

definition blank :: "string \<Rightarrow> bool" where
  "blank l = list_all isspace l"

text \<open>The first import pattern matches at every line of the list that begins with
  \<^verbatim>\<open>import\<close>, the lines after it being the text that follows.\<close>

fun covered :: "string list \<Rightarrow> bool" where
  "covered [] = True"
| "covered (l # ls) =
     ((\<not> starts_kw ''import'' l \<or> rmatch import_re True (join [nl] (l # ls)) \<noteq> None)
      \<and> covered ls)"

declare re_sub.simps [simp del] replace.simps [simp del] str_nat.simps [simp del]

section \<open>The bundle document\<close>

lemma bundle_loop_closed:
  "\<forall>p\<in>set ms. fs p \<noteq> Some Unreadable \<Longrightarrow>
   bundle_loop fs ms (acc, out) = Inr (acc @ sections_of fs ms, out @ warnings_of fs ms)"
proof (induction ms arbitrary: acc out)
  case Nil
  then show ?case by (simp add: sections_of_def warnings_of_def)
next
  case (Cons m ms)
  then show ?case
    by (cases "fs m") (auto simp: sections_of_def warnings_of_def read_text_def split: fsentry.splits)
qed

lemma bundle_modules_closed:
  assumes "\<forall>p\<in>set ms. files e p \<noteq> Some Unreadable" and "writable e"
  shows "bundle_modules ms e =
     Inr \<lparr>stdout = warnings_of (files e) ms
              @ summary (length ms) (join [nl] (header # sections_of (files e) ms @ [bootstrap])),
          written = join [nl] (header # sections_of (files e) ms @ [bootstrap])\<rparr>"
  using assms by (simp add: bundle_modules_def bundle_loop_closed summary_def Let_def)

lemma sections_of_readable:
  "\<forall>p\<in>set ms. readable fs p \<Longrightarrow>
   sections_of fs ms = concat (map (\<lambda>p. section_of p (read_text fs p)) ms)"
  by (induction ms) (auto simp: sections_of_def readable_def split: option.splits)

lemma warnings_of_readable:
  "\<forall>p\<in>set ms. readable fs p \<Longrightarrow> warnings_of fs ms = []"
  by (induction ms) (auto simp: warnings_of_def readable_def split: option.splits)

lemma readable_not_unreadable: "readable fs p \<Longrightarrow> fs p \<noteq> Some Unreadable"
  by (auto simp: readable_def)

text \<open>
  Claim C9. For the empty module list the run writes the header segment followed by the
  bootstrap segment and nothing between them: the two segments joined by the one newline
  that \<^verbatim>\<open>'\n'.join\<close> puts between neighbours. (The output file has to be writable for a
  bundle text to be produced at all.)
\<close>

theorem bundle_modules_empty_list:
  "writable e \<Longrightarrow>
   bundle_modules [] e =
     Inr \<lparr>stdout = summary 0 (header @ nl # bootstrap), written = header @ nl # bootstrap\<rparr>"
  by (simp add: bundle_modules_def summary_def)

theorem bundle_modules_empty_list_witness:
  "writable \<lparr>files = Map.empty, writable = True\<rparr> \<and>
   bundle_modules [] \<lparr>files = Map.empty, writable = True\<rparr> =
     Inr \<lparr>stdout = [''Successfully bundled 0 modules into content-refactored.js'',
                    ''Total size: 1451 characters''],
          written = header @ nl # bootstrap\<rparr>"
proof -
  have "summary 0 (header @ nl # bootstrap) =
      [''Successfully bundled 0 modules into content-refactored.js'',
       ''Total size: 1451 characters'']"
    by code_simp
  then show ?thesis
    using bundle_modules_empty_list [of "\<lparr>files = Map.empty, writable = True\<rparr>"] by simp
qed





text \<open>
  Claim C4. With the declared module list and a disk that lacks
  \<^verbatim>\<open>src/utils/Validators.js\<close>, eight modules are bundled and the run prints
  \<^verbatim>\<open>Successfully bundled 9 modules\<close>: the count printed is the length of the declared
  list, not the number of modules processed. The size printed is the length of the text
  written.
\<close>

theorem bundle_modules_prints_declared_count:
  "bundle_modules MODULES
     \<lparr>files = (\<lambda>p. if p = ''src/utils/Validators.js'' then None
                    else Some (File ''export class M {}'')),
      writable = True\<rparr>
   = Inr \<lparr>stdout = [''Warning: src/utils/Validators.js not found, skipping...'',
                    ''Successfully bundled 9 modules into content-refactored.js'',
                    ''Total size: 2462 characters''],
          written = join [nl] (header # concat (map (\<lambda>p. section_of p ''export class M {}'')
             (remove1 ''src/utils/Validators.js'' MODULES)) @ [bootstrap])\<rparr>
   \<and> length (remove1 ''src/utils/Validators.js'' MODULES) = 8
   \<and> length (join [nl] (header # concat (map (\<lambda>p. section_of p ''export class M {}'')
             (remove1 ''src/utils/Validators.js'' MODULES)) @ [bootstrap])) = 2462"
  by code_simp

section \<open>The display name of a module\<close>

lemma basename_append:
  assumes "CHR ''/'' \<notin> set b" and "d = [] \<or> last d = CHR ''/''"
  shows "basename (d @ b) = b"
proof (cases "d = []")
  case True
  have tw: "takeWhile (\<lambda>c. c \<noteq> CHR ''/'') (rev b) = rev b"
    using assms(1) by (intro takeWhile_eq_all_conv [THEN iffD2]) auto
  show ?thesis unfolding basename_def True append_Nil tw by (rule rev_rev_ident)
next
  case False
  with assms(2) obtain d' where d: "d = d' @ [CHR ''/'']"
    by (metis append_butlast_last_id)
  have "takeWhile (\<lambda>c. c \<noteq> CHR ''/'') (rev b @ CHR ''/'' # rev d') = rev b"
    using assms(1) by (auto simp: takeWhile_tail)
  then show ?thesis by (simp add: basename_def d)
qed

lemma replace_js_stem:
  "CHR ''.'' \<notin> set stem \<Longrightarrow> replace ''.js'' [] (stem @ ''.js'') = stem"
proof (induction stem)
  case Nil
  show ?case by code_simp
next
  case (Cons c stem)
  then have c: "c \<noteq> CHR ''.''" by auto
  have "replace ''.js'' [] (c # stem @ ''.js'') = c # replace ''.js'' [] (stem @ ''.js'')"
    by (subst replace.simps) (use c in auto)
  with Cons show ?case by simp
qed




section \<open>The substitutions of \<^verbatim>\<open>remove_imports_exports\<close>\<close>

subsection \<open>The matcher returns a match, and fails only when there is none\<close>

lemma rmatch_sound_aux: "rmatch p b s = Some (b', r) \<Longrightarrow> matches p b s (b', r)"
proof (induction p b s arbitrary: b' r rule: rmatch.induct)
  case (1 b s)
  then show ?case by (auto intro: matches.intros)
next
  case (2 p b s)
  then show ?case by (auto intro: matches.intros split: if_splits)
next
  case (3 p b s)
  then show ?case by (cases s) (auto intro: matches.intros split: if_splits)
next
  case (4 c p b s)
  then show ?case by (cases s) (auto intro: matches.intros split: if_splits)
next
  case (5 c p b s)
  then show ?case
    by (cases s) (auto intro: matches.intros split: if_splits option.splits)
next
  case (6 k p b s)
  then show ?case by (cases s) (auto intro: matches.intros split: if_splits)
next
  case (7 k p b s)
  then show ?case
    by (cases s) (auto intro: matches.intros split: if_splits option.splits)
next
  case (8 k p b s)
  then show ?case by (cases s) (auto intro: matches.intros split: if_splits)
next
  case (9 k p b s)
  then show ?case
    by (cases s) (auto intro: matches.intros split: if_splits option.splits)
qed

lemma rmatch_sound: "rmatch p b s = Some x \<Longrightarrow> matches p b s x"
  by (cases x) (auto dest: rmatch_sound_aux)

lemma rmatch_complete: "matches p b s x \<Longrightarrow> \<exists>y. rmatch p b s = Some y"
  by (induction rule: matches.induct) (auto split: option.splits)

lemma rmatch_NoneI: "(\<And>x. \<not> matches p b s x) \<Longrightarrow> rmatch p b s = None"
  using rmatch_sound by (metis not_Some_eq)

text \<open>What a match of a pattern that begins with a given item looks like.\<close>

inductive_cases matches_NilE: "matches [] b s x"
inductive_cases matches_BolE: "matches (Bol # p) b s x"
inductive_cases matches_EolE: "matches (Eol # p) b s x"
inductive_cases matches_LitE: "matches (Lit c # p) b s x"
inductive_cases matches_OptE: "matches (Opt c # p) b s x"
inductive_cases matches_OneE: "matches (One k # p) b s x"
inductive_cases matches_PlusE: "matches (Plus k # p) b s x"

lemma matches_suffix: "matches p b s x \<Longrightarrow> \<exists>m. s = m @ snd x"
  by (induction rule: matches.induct) (auto intro: exI [of _ "_ # _"])

lemma matches_Star_inv:
  "matches q b s x \<Longrightarrow> q = Star k # p \<Longrightarrow>
   \<exists>w t b'. s = w @ t \<and> (\<forall>c\<in>set w. in_class k c) \<and> matches p b' t x"
proof (induction rule: matches.induct)
  case (m_Star_stop p b s x k)
  then show ?case by (intro exI [of _ "[]"] exI [of _ s] exI [of _ b]) auto
next
  case (m_Star_step k' c p' s x b)
  then obtain w t b' where "s = w @ t" "\<forall>c\<in>set w. in_class k c" "matches p b' t x"
    by auto
  with m_Star_step show ?case
    by (intro exI [of _ "c # w"] exI [of _ t] exI [of _ b']) auto
qed auto

lemma matches_Lazy_inv:
  "matches q b s x \<Longrightarrow> q = LazyStar k # p \<Longrightarrow>
   \<exists>w t b'. s = w @ t \<and> (\<forall>c\<in>set w. in_class k c) \<and> matches p b' t x"
proof (induction rule: matches.induct)
  case (m_Lazy_stop p b s x k)
  then show ?case by (intro exI [of _ "[]"] exI [of _ s] exI [of _ b]) auto
next
  case (m_Lazy_step k' c p' s x b)
  then obtain w t b' where "s = w @ t" "\<forall>c\<in>set w. in_class k c" "matches p b' t x"
    by auto
  with m_Lazy_step show ?case
    by (intro exI [of _ "c # w"] exI [of _ t] exI [of _ b']) auto
qed auto

lemma matches_Plus_inv:
  assumes "matches (Plus k # p) b s x"
  shows "\<exists>c w t b'. s = c # w @ t \<and> in_class k c \<and> (\<forall>c\<in>set w. in_class k c) \<and> matches p b' t x"
proof -
  from assms obtain c s' where s: "s = c # s'" and c: "in_class k c"
    and m: "matches (Star k # p) (c = nl) s' x"
    by (auto elim: matches_PlusE)
  from matches_Star_inv [OF m refl] obtain w t b' where
    "s' = w @ t" "\<forall>c\<in>set w. in_class k c" "matches p b' t x" by blast
  with s c show ?thesis by blast
qed

lemma matches_lits_inv:
  "matches (lits w @ p) b s x \<Longrightarrow> \<exists>t b'. s = w @ t \<and> matches p b' t x"
proof (induction w arbitrary: b s)
  case Nil
  then show ?case by (auto simp: lits_def)
next
  case (Cons c w)
  from Cons.prems obtain s' where s: "s = c # s'" and m: "matches (lits w @ p) (c = nl) s' x"
    by (auto simp: lits_def elim: matches_LitE)
  from Cons.IH [OF m] s show ?case by auto
qed

subsection \<open>A match starts with the keyword of its pattern\<close>

lemma nl_not_space_free [simp]: "isspace nl"
  by (simp add: isspace_def nl_def)

lemma matches_kw:
  assumes "matches (Bol # lits w @ Plus Space # q) b s x"
  shows "b \<and> kw_at w s"
proof -
  from assms have b: b and m: "matches (lits w @ Plus Space # q) b s x"
    by (auto elim: matches_BolE)
  from matches_lits_inv [OF m] obtain t b' where s: "s = w @ t"
    and m': "matches (Plus Space # q) b' t x" by blast
  from m' obtain c t' where "t = c # t'" "isspace c"
    by (auto elim: matches_PlusE)
  with s b show ?thesis by (simp add: kw_at_def)
qed

lemma rmatch_kw:
  assumes "rmatch (Bol # lits w @ Plus Space # q) b s = Some x"
  shows "b \<and> kw_at w s"
  using matches_kw [OF rmatch_sound [OF assms]] .

lemma import_re_shape: "\<exists>q. import_re = Bol # lits ''import'' @ Plus Space # q"
  by (simp add: import_re_def)

lemma import_braces_re_shape: "\<exists>q. import_braces_re = Bol # lits ''import'' @ Plus Space # q"
  by (simp add: import_braces_re_def)

lemma export_re_shape: "\<exists>q. export_re = Bol # lits ''export'' @ Plus Space # q"
  by (simp add: export_re_def)

lemma kw_at_line:
  assumes "kw_at w (l @ rest)" and "nl \<notin> set l" and "nl \<notin> set w"
    and "rest = [] \<or> hd rest = nl"
  shows "starts_kw w l"
proof (cases "length w \<le> length l")
  case True
  with assms(1) have t: "take (length w) l = w"
    by (simp add: kw_at_def)
  show ?thesis
  proof (cases "drop (length w) l")
    case Nil
    with t show ?thesis by (simp add: starts_kw_def)
  next
    case (Cons c l')
    with assms(1) True have "isspace c" by (simp add: kw_at_def)
    with t Cons show ?thesis by (simp add: starts_kw_def)
  qed
next
  case False
  then have short: "length l < length w" by simp
  from assms(1) have "take (length w) (l @ rest) = w"
    by (simp add: kw_at_def)
  with short have w: "w = l @ take (length w - length l) rest" by simp
  show ?thesis
  proof (cases rest)
    case Nil
    with w have "w = l" by simp
    with short show ?thesis by simp
  next
    case (Cons c rest')
    with assms(4) have c: "c = nl" by simp
    from short obtain n where n: "length w - length l = Suc n"
      by (cases "length w - length l") auto
    from w have "w = l @ nl # take n rest'"
      unfolding n Cons c by simp
    then have "nl \<in> set w"
      by (metis in_set_conv_decomp)
    with assms(3) show ?thesis by simp
  qed
qed

subsection \<open>Substitution, line by line\<close>

lemma re_sub_Nil: "rmatch p b [] = None \<Longrightarrow> re_sub p repl b [] = []"
  by (subst re_sub.simps) simp

lemma re_sub_skip:
  "rmatch p b (c # s) = None \<Longrightarrow> re_sub p repl b (c # s) = c # re_sub p repl (c = nl) s"
  by (subst re_sub.simps) simp

lemma re_sub_hit:
  "rmatch p b s = Some (b', r) \<Longrightarrow> length r < length s \<Longrightarrow>
   re_sub p repl b s = repl @ re_sub p repl b' r"
  by (subst re_sub.simps) simp

lemma rmatch_Bol_False [simp]: "rmatch (Bol # q) False s = None"
  by simp

lemma re_sub_inline:
  "nl \<notin> set d \<Longrightarrow>
   re_sub (Bol # q) repl False (d @ nl # rest) = d @ nl # re_sub (Bol # q) repl True rest"
  by (induction d) (auto simp: re_sub_skip)

lemma re_sub_inline_end:
  "nl \<notin> set d \<Longrightarrow> re_sub (Bol # q) repl False d = d"
  by (induction d) (auto simp: re_sub_skip re_sub_Nil)

lemma re_sub_dead_line:
  assumes "rmatch (Bol # q) True (l @ nl # rest) = None" and "nl \<notin> set l"
  shows "re_sub (Bol # q) repl True (l @ nl # rest) = l @ nl # re_sub (Bol # q) repl True rest"
proof (cases l)
  case Nil
  with assms show ?thesis by (simp add: re_sub_skip)
next
  case (Cons c l')
  with assms have "c \<noteq> nl" "nl \<notin> set l'" by auto
  with assms(1) show ?thesis
    unfolding Cons by (simp add: re_sub_skip re_sub_inline)
qed

lemma re_sub_dead_last:
  assumes "rmatch (Bol # q) True l = None" and "nl \<notin> set l"
  shows "re_sub (Bol # q) repl True l = l"
proof (cases l)
  case Nil
  with assms show ?thesis by (simp add: re_sub_Nil)
next
  case (Cons c l')
  with assms have "c \<noteq> nl" "nl \<notin> set l'" by auto
  with assms(1) show ?thesis
    unfolding Cons by (simp add: re_sub_skip re_sub_inline_end)
qed

text \<open>A text is its lines joined by newlines, and no line holds a newline.\<close>

lemma lines_of_not_Nil [simp]: "lines_of s \<noteq> []"
  by (induction s) (auto split: list.splits)

lemma join_Cons_ne: "ls \<noteq> [] \<Longrightarrow> join sep (l # ls) = l @ sep @ join sep ls"
  by (cases ls) auto

lemma join_lines_of [simp]: "join [nl] (lines_of s) = s"
proof (induction s)
  case Nil
  show ?case by simp
next
  case (Cons c s)
  show ?case
  proof (cases "c = nl")
    case True
    with Cons show ?thesis by (simp add: join_Cons_ne)
  next
    case False
    obtain l ls where ls: "lines_of s = l # ls"
      by (cases "lines_of s") auto
    with Cons have "join [nl] (l # ls) = s" by simp
    then have "join [nl] ((c # l) # ls) = c # s"
      by (cases ls) auto
    with False ls show ?thesis by simp
  qed
qed

lemma lines_of_nl_free: "l \<in> set (lines_of s) \<Longrightarrow> nl \<notin> set l"
proof (induction s arbitrary: l)
  case Nil
  then show ?case by simp
next
  case (Cons c s)
  then show ?case
    by (cases "lines_of s") (auto split: if_splits)
qed

text \<open>A pattern that matches at no line of a text leaves the text as it is.\<close>

lemma re_sub_dead_lines:
  assumes "ls \<noteq> []"
    and "\<And>l rest. l \<in> set ls \<Longrightarrow> rest = [] \<or> hd rest = nl
      \<Longrightarrow> rmatch (Bol # q) True (l @ rest) = None"
    and "\<And>l. l \<in> set ls \<Longrightarrow> nl \<notin> set l"
  shows "re_sub (Bol # q) repl True (join [nl] ls) = join [nl] ls"
  using assms
proof (induction ls rule: list_nonempty_induct)
  case (single l)
  have "rmatch (Bol # q) True (l @ []) = None"
    by (rule single.prems(1)) auto
  then show ?case
    using single.prems(2) [of l] by (simp add: re_sub_dead_last)
next
  case (cons l ls)
  have "rmatch (Bol # q) True (l @ nl # join [nl] ls) = None"
    by (rule cons.prems(1)) auto
  moreover have "re_sub (Bol # q) repl True (join [nl] ls) = join [nl] ls"
  proof (rule cons.IH)
    fix l' rest
    assume "l' \<in> set ls" and r: "rest = [] \<or> hd rest = nl"
    then have "l' \<in> set (l # ls)" by simp
    from cons.prems(1) [OF this r] show "rmatch (Bol # q) True (l' @ rest) = None" .
  next
    fix l'
    assume "l' \<in> set ls"
    then have "l' \<in> set (l # ls)" by simp
    from cons.prems(2) [OF this] show "nl \<notin> set l'" .
  qed
  ultimately show ?case
    using cons.prems(2) [of l] cons.hyps by (simp add: re_sub_dead_line join_Cons_ne)
qed

lemma dead_by_kw:
  assumes "\<not> starts_kw w l" and "nl \<notin> set l" and "nl \<notin> set w"
    and "rest = [] \<or> hd rest = nl"
  shows "rmatch (Bol # lits w @ Plus Space # q) True (l @ rest) = None"
proof (rule rmatch_NoneI)
  fix x
  show "\<not> matches (Bol # lits w @ Plus Space # q) True (l @ rest) x"
    using matches_kw kw_at_line assms by blast
qed

lemma re_sub_no_kw:
  assumes "ls \<noteq> []"
    and "\<And>l. l \<in> set ls \<Longrightarrow> nl \<notin> set l \<and> \<not> starts_kw w l" and "nl \<notin> set w"
  shows "re_sub (Bol # lits w @ Plus Space # q) repl True (join [nl] ls) = join [nl] ls"
  using assms by (intro re_sub_dead_lines dead_by_kw) auto

subsection \<open>Applying the function twice\<close>

lemma nl_notin_import [simp]: "nl \<notin> set ''import''" and nl_notin_export [simp]: "nl \<notin> set ''export''"
  by (simp_all add: nl_def)

lemma has_sub_append: "has_sub w (a @ w @ b)"
proof (induction a)
  case Nil
  show ?case by (cases w; cases b) auto
next
  case (Cons c a)
  then show ?case by simp
qed

lemma prefix_by_class:
  assumes "u @ v = a @ rest" and "\<forall>c\<in>set u. P c" and "rest = [] \<or> \<not> P (hd rest)"
  shows "\<exists>a'. a = u @ a'"
proof -
  from assms(1) obtain us where
    "(u = a @ us \<and> us @ v = rest) \<or> (u @ us = a \<and> v = us @ rest)"
    by (auto simp: append_eq_append_conv2)
  then show ?thesis
  proof
    assume h: "u = a @ us \<and> us @ v = rest"
    show ?thesis
    proof (cases us)
      case Nil
      with h show ?thesis by simp
    next
      case (Cons c us')
      with h have "rest \<noteq> []" "hd rest = c" "c \<in> set u" by auto
      with assms(2,3) show ?thesis by auto
    qed
  next
    assume "u @ us = a \<and> v = us @ rest"
    then show ?thesis by auto
  qed
qed

lemma remove_no_kw:
  assumes "\<forall>l\<in>set (lines_of y). \<not> starts_kw ''import'' l \<and> \<not> starts_kw ''export'' l"
  shows "remove_imports_exports y = y"
proof -
  have nk: "\<And>l. l \<in> set (lines_of y) \<Longrightarrow> nl \<notin> set l \<and> \<not> starts_kw ''import'' l"
    and nk': "\<And>l. l \<in> set (lines_of y) \<Longrightarrow> nl \<notin> set l \<and> \<not> starts_kw ''export'' l"
    using assms lines_of_nl_free by auto
  obtain q1 where q1: "import_re = Bol # lits ''import'' @ Plus Space # q1"
    using import_re_shape by blast
  obtain q2 where q2: "import_braces_re = Bol # lits ''import'' @ Plus Space # q2"
    using import_braces_re_shape by blast
  obtain q3 where q3: "export_re = Bol # lits ''export'' @ Plus Space # q3"
    using export_re_shape by blast
  have "re_sub (Bol # lits ''import'' @ Plus Space # q1) [] True (join [nl] (lines_of y))
      = join [nl] (lines_of y)"
    by (rule re_sub_no_kw) (use nk in \<open>simp_all add: nl_def\<close>)
  then have 1: "re_sub import_re [] True y = y"
    by (simp add: q1)
  have "re_sub (Bol # lits ''import'' @ Plus Space # q2) [] True (join [nl] (lines_of y))
      = join [nl] (lines_of y)"
    by (rule re_sub_no_kw) (use nk in \<open>simp_all add: nl_def\<close>)
  then have 2: "re_sub import_braces_re [] True y = y"
    by (simp add: q2)
  have "re_sub (Bol # lits ''export'' @ Plus Space # q3) [] True (join [nl] (lines_of y))
      = join [nl] (lines_of y)"
    by (rule re_sub_no_kw) (use nk' in \<open>simp_all add: nl_def\<close>)
  then have 3: "re_sub export_re [] True y = y"
    by (simp add: q3)
  show ?thesis
    by (simp add: remove_imports_exports_def 1 2 3)
qed




subsection \<open>Import statements over several lines\<close>

lemma import_line_split:
  assumes "starts_kw ''import'' l" and "open_binding l"
  shows "\<exists>ws0 y l'. l = ''import'' @ ws0 @ y # l' \<and> (\<forall>c\<in>set ws0. isspace c)
    \<and> \<not> isspace y \<and> y \<noteq> CHR ''{''"
proof -
  from assms(2) obtain y l' where d: "dropWhile isspace (drop 6 l) = y # l'" and y: "y \<noteq> CHR ''{''"
    by (auto simp: open_binding_def split: list.splits)
  from d have ny: "\<not> isspace y"
    by (metis hd_dropWhile list.sel(1) list.distinct(1))
  from assms(1) have t: "take 6 l = ''import''"
    by (simp add: starts_kw_def eval_nat_numeral)
  have "l = take 6 l @ takeWhile isspace (drop 6 l) @ dropWhile isspace (drop 6 l)"
    by simp
  with t d have "l = ''import'' @ takeWhile isspace (drop 6 l) @ y # l'"
    by simp
  moreover have "\<forall>c\<in>set (takeWhile isspace (drop 6 l)). isspace c"
    by (auto dest: set_takeWhileD)
  ultimately show ?thesis using ny y by blast
qed

lemma import_re_dead_open:
  assumes "starts_kw ''import'' l" and "open_binding l"
    and "rest = [] \<or> hd rest = nl"
  shows "rmatch import_re True (l @ rest) = None"
proof (rule rmatch_NoneI)
  fix x
  show "\<not> matches import_re True (l @ rest) x"
  proof
    assume m: "matches import_re True (l @ rest) x"
    obtain q where q: "import_re
        = Bol # lits ''import'' @ Plus Space # LazyStar AnyChar # lits ''from'' @ q"
      by (simp add: import_re_def)
    from m have "matches (lits ''import'' @ Plus Space # LazyStar AnyChar # lits ''from'' @ q)
        True (l @ rest) x"
      unfolding q by (auto elim: matches_BolE)
    from matches_lits_inv [OF this] obtain t b1 where
      t: "l @ rest = ''import'' @ t"
      and m1: "matches (Plus Space # LazyStar AnyChar # lits ''from'' @ q) b1 t x" by blast
    from matches_Plus_inv [OF m1] obtain c w1 t1 b2 where
      t1: "t = c # w1 @ t1" and c: "isspace c" and w1: "\<forall>c\<in>set w1. isspace c"
      and m2: "matches (LazyStar AnyChar # lits ''from'' @ q) b2 t1 x" by auto
    from matches_Lazy_inv [OF m2 refl] obtain body t2 b3 where
      t2: "t1 = body @ t2" and body: "\<forall>c\<in>set body. c \<noteq> nl"
      and m3: "matches (lits ''from'' @ q) b3 t2 x" by auto
    from matches_lits_inv [OF m3] obtain t3 where t3: "t2 = ''from'' @ t3" by blast
    from import_line_split [OF assms(1,2)] obtain ws0 y l' where
      l: "l = ''import'' @ ws0 @ y # l'" and ws0: "\<forall>c\<in>set ws0. isspace c"
      and y: "\<not> isspace y" by auto
    from t have "l @ rest = ''import'' @ (c # w1) @ (body @ ''from'' @ t3)"
      unfolding t1 t2 t3 by simp
    then have "''import'' @ ws0 @ (y # l' @ rest) = ''import'' @ (c # w1) @ (body @ ''from'' @ t3)"
      unfolding l by simp
    then have e1: "(c # w1) @ (body @ ''from'' @ t3) = ws0 @ (y # l' @ rest)"
      by (simp only: same_append_eq)
    have "\<exists>ws1. ws0 = (c # w1) @ ws1"
      by (rule prefix_by_class [OF e1, where P = isspace]) (use c w1 y in auto)
    then obtain ws1 where ws1: "ws0 = (c # w1) @ ws1" ..
    with e1 have e2: "(body @ ''from'') @ t3 = (ws1 @ y # l') @ rest"
      by simp
    have "\<exists>a'. ws1 @ y # l' = (body @ ''from'') @ a'"
      by (rule prefix_by_class [OF e2, where P = "\<lambda>c. c \<noteq> nl"])
         (use body assms(3) in \<open>auto simp: nl_def\<close>)
    then obtain a' where "ws1 @ y # l' = (body @ ''from'') @ a'" ..
    with l ws1 have "l = (''import'' @ c # w1 @ body) @ ''from'' @ a'"
      by simp
    then have "has_sub ''from'' l"
      by (simp only: has_sub_append)
    with assms(2) show False by (simp add: open_binding_def)
  qed
qed

lemma import_braces_re_dead_open:
  assumes "starts_kw ''import'' l" and "open_binding l"
  shows "rmatch import_braces_re True (l @ rest) = None"
proof (rule rmatch_NoneI)
  fix x
  show "\<not> matches import_braces_re True (l @ rest) x"
  proof
    assume m: "matches import_braces_re True (l @ rest) x"
    obtain q where q: "import_braces_re
        = Bol # lits ''import'' @ Plus Space # Lit (CHR ''{'') # q"
      by (simp add: import_braces_re_def)
    from m have "matches (lits ''import'' @ Plus Space # Lit (CHR ''{'') # q) True (l @ rest) x"
      unfolding q by (auto elim: matches_BolE)
    from matches_lits_inv [OF this] obtain t b1 where
      t: "l @ rest = ''import'' @ t"
      and m1: "matches (Plus Space # Lit (CHR ''{'') # q) b1 t x" by blast
    from matches_Plus_inv [OF m1] obtain c w1 t1 b2 where
      t1: "t = c # w1 @ t1" and c: "isspace c" and w1: "\<forall>c\<in>set w1. isspace c"
      and m2: "matches (Lit (CHR ''{'') # q) b2 t1 x" by auto
    from m2 obtain t2 where t2: "t1 = CHR ''{'' # t2"
      by (auto elim: matches_LitE)
    from import_line_split [OF assms(1,2)] obtain ws0 y l' where
      l: "l = ''import'' @ ws0 @ y # l'" and ws0: "\<forall>c\<in>set ws0. isspace c"
      and y: "\<not> isspace y" "y \<noteq> CHR ''{''" by auto
    from t have "l @ rest = ''import'' @ (c # w1) @ (CHR ''{'' # t2)"
      unfolding t1 t2 by simp
    then have "''import'' @ ws0 @ (y # l' @ rest) = ''import'' @ (c # w1) @ (CHR ''{'' # t2)"
      unfolding l by simp
    then have e1: "(c # w1) @ (CHR ''{'' # t2) = ws0 @ (y # l' @ rest)"
      by (simp only: same_append_eq)
    have "\<exists>ws1. ws0 = (c # w1) @ ws1"
      by (rule prefix_by_class [OF e1, where P = isspace]) (use c w1 y in auto)
    then obtain ws1 where ws1: "ws0 = (c # w1) @ ws1" ..
    with e1 have e2: "CHR ''{'' # t2 = ws1 @ y # l' @ rest"
      by simp
    have nb: "\<not> isspace (CHR ''{'')"
      by (simp add: isspace_def)
    show False
    proof (cases ws1)
      case Nil
      with e2 y show False by simp
    next
      case (Cons z ws1')
      with e2 have "z = CHR ''{''" by simp
      with Cons ws1 ws0 nb show False by auto
    qed
  qed
qed




subsection \<open>The export keyword\<close>

lemma rmatch_lits:
  "w \<noteq> [] \<Longrightarrow> rmatch (lits w @ p) b (w @ s) = rmatch p (last w = nl) s"
proof (induction w arbitrary: b)
  case Nil
  then show ?case by simp
next
  case (Cons c w)
  show ?case
  proof (cases "w = []")
    case True
    then show ?thesis by (simp add: lits_def)
  next
    case False
    with Cons.IH [of "c = nl"] show ?thesis by (simp add: lits_def)
  qed
qed

lemma rmatch_Star_last:
  assumes "\<forall>c\<in>set w. in_class k c" and "s = [] \<or> \<not> in_class k (hd s)"
  shows "rmatch [Star k] b (w @ s) = Some (if w = [] then b else last w = nl, s)"
  using assms(1)
proof (induction w arbitrary: b)
  case Nil
  with assms(2) show ?case by (cases s) auto
next
  case (Cons c w)
  then show ?case by auto
qed

lemma export_line_split:
  assumes "starts_kw ''export'' l" and "dropWhile isspace (drop 6 l) \<noteq> []"
  shows "\<exists>c ws d. l = ''export'' @ c # ws @ d \<and> isspace c \<and> (\<forall>c\<in>set ws. isspace c)
    \<and> d \<noteq> [] \<and> \<not> isspace (hd d) \<and> d = dropWhile isspace (drop 6 l)"
proof -
  let ?d = "dropWhile isspace (drop 6 l)"
  from assms(1) have t: "take 6 l = ''export''"
    by (simp add: starts_kw_def eval_nat_numeral)
  from assms(2) have "drop 6 l \<noteq> []" by auto
  then obtain c r where cr: "drop 6 l = c # r" by (cases "drop 6 l") auto
  with assms(1) have c: "isspace c"
    by (simp add: starts_kw_def eval_nat_numeral)
  have "l = take 6 l @ drop 6 l" by simp
  with t cr c have l: "l = ''export'' @ c # takeWhile isspace r @ dropWhile isspace r"
    by simp
  from cr c have d: "?d = dropWhile isspace r" by simp
  have nh: "\<not> isspace (hd ?d)"
    using assms(2) by (rule hd_dropWhile)
  from l d have l': "l = ''export'' @ c # takeWhile isspace r @ ?d"
    by simp
  have ws: "\<forall>c\<in>set (takeWhile isspace r). isspace c"
    by (auto dest: set_takeWhileD)
  show ?thesis
    by (rule exI [of _ c], rule exI [of _ "takeWhile isspace r"], rule exI [of _ ?d])
       (use l' c ws assms(2) nh in blast)
qed

lemma rmatch_Plus_Cons:
  "rmatch (Plus k # p) b (c # s) = (if in_class k c then rmatch (Star k # p) (c = nl) s else None)"
  by simp

lemma rmatch_export_pieces:
  assumes "isspace c" and "\<forall>c\<in>set ws. isspace c" and "c \<noteq> nl" and "nl \<notin> set ws"
    and "d \<noteq> []" and "\<not> isspace (hd d)"
  shows "rmatch export_re True (''export'' @ c # ws @ d @ rest) = Some (False, d @ rest)"
proof -
  have fl: "(if ws = [] then False else last ws = nl) = False"
    using assms(4) by (auto dest: last_in_set)
  have "rmatch export_re True (''export'' @ c # ws @ d @ rest)
      = rmatch (lits ''export'' @ [Plus Space]) True (''export'' @ c # ws @ d @ rest)"
    by (simp only: export_re_def rmatch.simps(2) if_True)
  also have "\<dots> = rmatch [Plus Space] (last ''export'' = nl) (c # ws @ d @ rest)"
    by (rule rmatch_lits) simp
  also have "\<dots> = rmatch [Star Space] (c = nl) (ws @ (d @ rest))"
    using assms(1) by (simp only: rmatch_Plus_Cons in_class.simps if_True)
  also have "\<dots> = Some (if ws = [] then c = nl else last ws = nl, d @ rest)"
    by (rule rmatch_Star_last) (use assms in auto)
  also have "\<dots> = Some (False, d @ rest)"
    using assms(3) fl by (cases "ws = []") simp_all
  finally show ?thesis .
qed

lemma rmatch_export_line:
  assumes "starts_kw ''export'' l" and "dropWhile isspace (drop 6 l) \<noteq> []" and "nl \<notin> set l"
  shows "rmatch export_re True (l @ rest) = Some (False, dropWhile isspace (drop 6 l) @ rest)"
proof -
  from export_line_split [OF assms(1,2)] obtain c ws d where
    l: "l = ''export'' @ c # ws @ d" and c: "isspace c" and ws: "\<forall>c\<in>set ws. isspace c"
    and d: "d \<noteq> []" "\<not> isspace (hd d)" "d = dropWhile isspace (drop 6 l)"
    by blast
  from assms(3) l have nn: "c \<noteq> nl" "nl \<notin> set ws" by auto
  have "rmatch export_re True (l @ rest) = rmatch export_re True (''export'' @ c # ws @ d @ rest)"
    by (subst l) simp
  also have "\<dots> = Some (False, d @ rest)"
    using c ws nn d(1,2) by (rule rmatch_export_pieces)
  finally show ?thesis
    unfolding d(3) .
qed

lemma re_sub_export_line:
  assumes "starts_kw ''export'' l" and "dropWhile isspace (drop 6 l) \<noteq> []" and "nl \<notin> set l"
  shows "re_sub export_re [] True (l @ nl # rest)
      = dropWhile isspace (drop 6 l) @ nl # re_sub export_re [] True rest"
    and "re_sub export_re [] True l = dropWhile isspace (drop 6 l)"
proof -
  let ?d = "dropWhile isspace (drop 6 l)"
  obtain q where q: "export_re = Bol # q" by (simp add: export_re_def)
  have "set ?d \<subseteq> set l"
    by (metis set_dropWhileD set_drop_subset subsetI subsetD)
  with assms(3) have nd: "nl \<notin> set ?d" by auto
  have len: "length ?d \<le> length (drop 6 l)"
    by (rule length_dropWhile_le)
  from assms(1) have "length l \<ge> 6"
    by (auto simp: starts_kw_def eval_nat_numeral dest: arg_cong [where f = length])
  with len have lt: "length ?d < length l" by simp
  have "re_sub export_re [] True (l @ nl # rest)
      = [] @ re_sub export_re [] False (?d @ nl # rest)"
    by (rule re_sub_hit [OF rmatch_export_line [OF assms]]) (use lt in simp)
  with nd show "re_sub export_re [] True (l @ nl # rest)
      = ?d @ nl # re_sub export_re [] True rest"
    by (simp add: q re_sub_inline)
  have "re_sub export_re [] True (l @ []) = [] @ re_sub export_re [] False (?d @ [])"
    by (rule re_sub_hit [OF rmatch_export_line [OF assms]]) (use lt in simp)
  with nd show "re_sub export_re [] True l = ?d"
    by (simp add: q re_sub_inline_end)
qed

lemma re_sub_export_lines:
  assumes "ls \<noteq> []"
    and "\<forall>l\<in>set ls. nl \<notin> set l \<and>
      (\<not> starts_kw ''export'' l \<or> dropWhile isspace (drop 6 l) \<noteq> [])"
  shows "re_sub export_re [] True (join [nl] ls) = join [nl] (map strip_export ls)"
  using assms
proof (induction ls rule: list_nonempty_induct)
  case (single l)
  obtain q where q: "export_re = Bol # lits ''export'' @ Plus Space # q"
    using export_re_shape by blast
  show ?case
  proof (cases "starts_kw ''export'' l")
    case True
    then have "strip_export l = dropWhile isspace (drop 6 l)"
      by (simp add: strip_export_def)
    with True single re_sub_export_line(2) [of l] show ?thesis
      by simp
  next
    case False
    have "rmatch (Bol # lits ''export'' @ Plus Space # q) True (l @ []) = None"
      by (rule dead_by_kw) (use False single in \<open>auto simp: nl_def\<close>)
    moreover from False have "strip_export l = l"
      by (simp add: strip_export_def)
    ultimately show ?thesis
      using single by (simp add: q re_sub_dead_last)
  qed
next
  case (cons l ls)
  obtain q where q: "export_re = Bol # lits ''export'' @ Plus Space # q"
    using export_re_shape by blast
  from cons have IH: "re_sub export_re [] True (join [nl] ls) = join [nl] (map strip_export ls)"
    by simp
  from cons.prems have nf: "nl \<notin> set l" by simp
  show ?case
  proof (cases "starts_kw ''export'' l")
    case True
    with cons.prems have "dropWhile isspace (drop 6 l) \<noteq> []" by simp
    moreover from True have "strip_export l = dropWhile isspace (drop 6 l)"
      by (simp add: strip_export_def)
    ultimately show ?thesis
      using re_sub_export_line(1) [OF True _ nf] IH cons.hyps
      by (simp add: join_Cons_ne)
  next
    case False
    have "rmatch (Bol # lits ''export'' @ Plus Space # q) True (l @ nl # join [nl] ls) = None"
      by (rule dead_by_kw) (use False nf in \<open>auto simp: nl_def\<close>)
    then have "re_sub export_re [] True (l @ nl # join [nl] ls)
        = l @ nl # re_sub export_re [] True (join [nl] ls)"
      unfolding q using nf by (rule re_sub_dead_line)
    moreover from False have "strip_export l = l"
      by (simp add: strip_export_def)
    ultimately show ?thesis
      using IH cons.hyps by (simp add: join_Cons_ne)
  qed
qed




subsection \<open>The shape of a match of the first import pattern\<close>

lemma matches_ends_at_Eol:
  "matches q b s x \<Longrightarrow> q = p @ [Eol] \<Longrightarrow> snd x = [] \<or> hd (snd x) = nl"
proof (induction arbitrary: p rule: matches.induct)
  case (m_Nil b s)
  then show ?case by simp
next
  case (m_Bol b p' s x)
  then show ?case by (cases p) auto
next
  case (m_Eol_end p' b x)
  then show ?case by (cases p) (auto elim: matches_NilE)
next
  case (m_Eol_nl p' b s x)
  then show ?case by (cases p) (auto elim: matches_NilE)
next
  case (m_Lit p' c s x b)
  then show ?case by (cases p) auto
next
  case (m_Opt_take p' c s x b)
  then show ?case by (cases p) auto
next
  case (m_Opt_skip p' b s x c)
  then show ?case by (cases p) auto
next
  case (m_One k c p' s x b)
  then show ?case by (cases p) auto
next
  case (m_Star_stop p' b s x k)
  then show ?case by (cases p) auto
next
  case (m_Star_step k c p' s x b)
  then show ?case by (cases p) auto
next
  case (m_Plus k c p' s x b)
  then show ?case by (cases p) auto
next
  case (m_Lazy_stop p' b s x k)
  then show ?case by (cases p) auto
next
  case (m_Lazy_step k c p' s x b)
  then show ?case by (cases p) auto
qed

lemma matches_extend:
  "matches p b s x \<Longrightarrow> t = [] \<or> hd t = nl \<Longrightarrow> matches p b (s @ t) (fst x, snd x @ t)"
proof (induction rule: matches.induct)
  case (m_Eol_end p b x)
  then show ?case
    by (cases t) (auto intro: matches.intros)
qed (auto intro: matches.intros)


lemma matches_Opt_inv:
  assumes "matches (Opt c # p) b s x"
  shows "\<exists>u t b'. s = u @ t \<and> (u = [] \<or> u = [c]) \<and> matches p b' t x"
  using assms
proof (rule matches_OptE)
  fix s'
  assume "s = c # s'" and "matches p (c = nl) s' x"
  then have "s = [c] @ s' \<and> ([c] = [] \<or> [c] = [c]) \<and> matches p (c = nl) s' x"
    by simp
  then show ?thesis by blast
next
  assume "matches p b s x"
  then have "s = [] @ s \<and> ([] = [] \<or> [] = [c]) \<and> matches p b s x"
    by simp
  then show ?thesis by blast
qed

lemma import_re_inv:
  assumes "matches import_re b S x"
  shows "\<exists>w1 body w2 q1 path q2 semi w3.
      S = ''import'' @ w1 @ body @ ''from'' @ w2 @ q1 # path @ q2 # semi @ w3 @ snd x
      \<and> w1 \<noteq> [] \<and> (\<forall>c\<in>set w1. isspace c) \<and> nl \<notin> set body
      \<and> w2 \<noteq> [] \<and> (\<forall>c\<in>set w2. isspace c)
      \<and> (q1 = squote \<or> q1 = dquote) \<and> nl \<notin> set path \<and> (q2 = squote \<or> q2 = dquote)
      \<and> (semi = [] \<or> semi = '';'') \<and> (\<forall>c\<in>set w3. isspace c)
      \<and> (snd x = [] \<or> hd (snd x) = nl)"
proof -
  let ?p8 = "[Star Space, Eol]"
  let ?p7 = "Opt (CHR '';'') # ?p8"
  let ?p6 = "One Quote # ?p7"
  let ?p5 = "LazyStar AnyChar # ?p6"
  let ?p4 = "One Quote # ?p5"
  let ?p3 = "Plus Space # ?p4"
  let ?p2 = "LazyStar AnyChar # lits ''from'' @ ?p3"
  let ?p1 = "Plus Space # ?p2"
  have shape: "import_re = Bol # lits ''import'' @ ?p1"
    by (simp add: import_re_def)
  have "import_re = (Bol # lits ''import'' @ [Plus Space, LazyStar AnyChar] @ lits ''from''
     @ [Plus Space, One Quote, LazyStar AnyChar, One Quote, Opt (CHR '';''), Star Space]) @ [Eol]"
    by (simp add: import_re_def)
  from matches_ends_at_Eol [OF assms this] have fin: "snd x = [] \<or> hd (snd x) = nl" .
  from assms have "matches (lits ''import'' @ ?p1) b S x"
    unfolding shape by (auto elim: matches_BolE)
  from matches_lits_inv [OF this] obtain t0 b0 where
    0: "S = ''import'' @ t0" and m0: "matches ?p1 b0 t0 x" by blast
  from matches_Plus_inv [OF m0] obtain c1 v1 t1 b1 where
    1: "t0 = c1 # v1 @ t1" and c1: "isspace c1" "\<forall>c\<in>set v1. isspace c"
    and m1: "matches ?p2 b1 t1 x" by auto
  from matches_Lazy_inv [OF m1 refl] obtain body t2 b2 where
    2: "t1 = body @ t2" and body: "\<forall>c\<in>set body. c \<noteq> nl"
    and m2: "matches (lits ''from'' @ ?p3) b2 t2 x" by auto
  from matches_lits_inv [OF m2] obtain t3 b3 where
    3: "t2 = ''from'' @ t3" and m3: "matches ?p3 b3 t3 x" by blast
  from matches_Plus_inv [OF m3] obtain c2 v2 t4 b4 where
    4: "t3 = c2 # v2 @ t4" and c2: "isspace c2" "\<forall>c\<in>set v2. isspace c"
    and m4: "matches ?p4 b4 t4 x" by auto
  from m4 obtain q1 t5 where 5: "t4 = q1 # t5" and q1: "q1 = squote \<or> q1 = dquote"
    and m5: "matches ?p5 (q1 = nl) t5 x"
    by (auto elim: matches_OneE)
  from matches_Lazy_inv [OF m5 refl] obtain path t6 b6 where
    6: "t5 = path @ t6" and path: "\<forall>c\<in>set path. c \<noteq> nl"
    and m6: "matches ?p6 b6 t6 x" by auto
  from m6 obtain q2 t7 where 7: "t6 = q2 # t7" and q2: "q2 = squote \<or> q2 = dquote"
    and m7: "matches ?p7 (q2 = nl) t7 x"
    by (auto elim: matches_OneE)
  from matches_Opt_inv [OF m7] obtain semi t8 b8 where 8: "t7 = semi @ t8"
    and semi: "semi = [] \<or> semi = '';''" and m8: "matches ?p8 b8 t8 x" by blast
  from matches_Star_inv [OF m8 refl] obtain w3 t9 b9 where
    9: "t8 = w3 @ t9" and w3: "\<forall>c\<in>set w3. isspace c"
    and m9: "matches [Eol] b9 t9 x" by auto
  from m9 have 10: "snd x = t9"
    by (auto elim!: matches_EolE matches_NilE)
  have "S = ''import'' @ (c1 # v1) @ body @ ''from'' @ (c2 # v2) @ q1 # path @ q2 # semi @ w3 @ snd x"
    unfolding 0 1 2 3 4 5 6 7 8 9 10 by simp
  moreover have "c1 # v1 \<noteq> []" "\<forall>c\<in>set (c1 # v1). isspace c"
    "c2 # v2 \<noteq> []" "\<forall>c\<in>set (c2 # v2). isspace c"
    using c1 c2 by auto
  moreover have "nl \<notin> set body" "nl \<notin> set path"
    using body path by auto
  ultimately show ?thesis
    using q1 q2 semi w3 fin by blast
qed

lemma last_nonspace:
  assumes "\<not> isspace c" and "\<forall>x\<in>set w. isspace x"
  shows "hd (dropWhile isspace (rev (a @ c # w))) = c"
proof -
  have "dropWhile isspace (rev w @ c # rev a) = dropWhile isspace (c # rev a)"
    by (rule dropWhile_append2) (use assms(2) in auto)
  with assms(1) show ?thesis by simp
qed

lemma first_line: "nl \<notin> set L \<Longrightarrow> takeWhile (\<lambda>c. c \<noteq> nl) (L @ nl # t) = L"
  by (induction L) auto

lemma not_space_chars:
  "\<not> isspace squote" "\<not> isspace dquote" "\<not> isspace (CHR '';'')"
  "\<not> isspace (CHR ''t'')" "\<not> isspace (CHR ''m'')"
  by (simp_all add: isspace_def squote_def dquote_def)

lemma import_re_own_line:
  assumes "matches import_re b L x" and "nl \<notin> set L"
  shows "snd x = [] \<and> hd (dropWhile isspace (rev L)) \<in> {squote, dquote, CHR '';''}"
proof -
  from import_re_inv [OF assms(1)] obtain w1 body w2 q1 path q2 semi w3 where
    L: "L = ''import'' @ w1 @ body @ ''from'' @ w2 @ q1 # path @ q2 # semi @ w3 @ snd x"
    and q2: "q2 = squote \<or> q2 = dquote" and semi: "semi = [] \<or> semi = '';''"
    and w3: "\<forall>c\<in>set w3. isspace c" and fin: "snd x = [] \<or> hd (snd x) = nl"
    by blast
  have r: "snd x = []"
  proof (rule ccontr)
    assume "snd x \<noteq> []"
    with fin have "nl \<in> set (snd x)" by (cases "snd x") auto
    then have "nl \<in> set L" by (subst L) simp
    with assms(2) show False by simp
  qed
  have nq: "\<not> isspace q2"
    using q2 not_space_chars by auto
  from semi show ?thesis
  proof
    assume "semi = []"
    with L r have e: "L = (''import'' @ w1 @ body @ ''from'' @ w2 @ q1 # path) @ q2 # w3"
      by simp
    have "hd (dropWhile isspace (rev L)) = q2"
      by (subst e, rule last_nonspace) (use nq w3 in auto)
    with q2 r show ?thesis by auto
  next
    assume "semi = '';''"
    with L r have e: "L = (''import'' @ w1 @ body @ ''from'' @ w2 @ q1 # path @ [q2]) @ CHR '';'' # w3"
      by simp
    have "hd (dropWhile isspace (rev L)) = CHR '';''"
      by (subst e, rule last_nonspace) (use not_space_chars w3 in auto)
    with r show ?thesis by auto
  qed
qed


lemma import_re_in_context:
  assumes "matches import_re b (L @ nl # post) x" and "nl \<notin> set L"
  shows "hd (dropWhile isspace (rev L)) \<in> {CHR ''t'', CHR ''m''} \<or>
    (\<exists>M w3. L @ nl # post = M @ w3 @ snd x \<and> nl \<notin> set M \<and> (\<forall>c\<in>set w3. isspace c)
       \<and> (snd x = [] \<or> hd (snd x) = nl))"
proof -
  let ?P = "\<lambda>c. c \<noteq> nl"
  from import_re_inv [OF assms(1)] obtain w1 body w2 q1 path q2 semi w3 where
    S: "L @ nl # post
        = ''import'' @ w1 @ body @ ''from'' @ w2 @ q1 # path @ q2 # semi @ w3 @ snd x"
    and w1: "\<forall>c\<in>set w1. isspace c" and body: "nl \<notin> set body"
    and w2: "\<forall>c\<in>set w2. isspace c"
    and q1: "q1 = squote \<or> q1 = dquote" and path: "nl \<notin> set path"
    and q2: "q2 = squote \<or> q2 = dquote" and semi: "semi = [] \<or> semi = '';''"
    and w3: "\<forall>c\<in>set w3. isspace c" and fin: "snd x = [] \<or> hd (snd x) = nl"
    by blast
  have L: "L = takeWhile ?P (L @ nl # post)"
    using assms(2) by (simp add: first_line)
  have lit: "\<forall>c\<in>set ''import''. c \<noteq> nl" "\<forall>c\<in>set ''from''. c \<noteq> nl"
    by (simp_all add: nl_def)
  show ?thesis
  proof (cases "nl \<in> set w1")
    case True
    then have "takeWhile ?P (w1 @ body @ ''from'' @ w2 @ q1 # path @ q2 # semi @ w3 @ snd x)
        = takeWhile ?P w1"
      by (intro takeWhile_append1 [where x = nl]) auto
    then have "takeWhile ?P (''import'' @ w1 @ body @ ''from'' @ w2 @ q1 # path @ q2 # semi
        @ w3 @ snd x) = ''import'' @ takeWhile ?P w1"
      by (simp add: nl_def)
    with L S have e: "L = ''impor'' @ CHR ''t'' # takeWhile ?P w1"
      by simp
    have "hd (dropWhile isspace (rev L)) = CHR ''t''"
      by (subst e, rule last_nonspace) (use not_space_chars w1 in \<open>auto dest: set_takeWhileD\<close>)
    then show ?thesis by simp
  next
    case n1: False
    show ?thesis
    proof (cases "nl \<in> set w2")
      case True
      then have "takeWhile ?P (w2 @ q1 # path @ q2 # semi @ w3 @ snd x) = takeWhile ?P w2"
        by (intro takeWhile_append1 [where x = nl]) auto
      moreover have "takeWhile ?P ((''import'' @ w1 @ body @ ''from'')
          @ (w2 @ q1 # path @ q2 # semi @ w3 @ snd x))
        = (''import'' @ w1 @ body @ ''from'')
          @ takeWhile ?P (w2 @ q1 # path @ q2 # semi @ w3 @ snd x)"
        by (rule takeWhile_append2) (use n1 body in \<open>auto simp: nl_def\<close>)
      ultimately have "takeWhile ?P (''import'' @ w1 @ body @ ''from'' @ w2 @ q1 # path @ q2
          # semi @ w3 @ snd x) = (''import'' @ w1 @ body @ ''from'') @ takeWhile ?P w2"
        by simp
      with L S have e: "L = (''import'' @ w1 @ body @ ''fro'') @ CHR ''m'' # takeWhile ?P w2"
        by simp
      have "hd (dropWhile isspace (rev L)) = CHR ''m''"
        by (subst e, rule last_nonspace) (use not_space_chars w2 in \<open>auto dest: set_takeWhileD\<close>)
      then show ?thesis by simp
    next
      case n2: False
      let ?M = "''import'' @ w1 @ body @ ''from'' @ w2 @ q1 # path @ q2 # semi"
      have "nl \<notin> set ?M"
        using n1 n2 body path q1 q2 semi by (auto simp: nl_def squote_def dquote_def)
      moreover from S have "L @ nl # post = ?M @ w3 @ snd x"
        by simp
      ultimately show ?thesis
        using w3 fin by blast
    qed
  qed
qed

subsection \<open>An import statement on a line of its own\<close>

lemma import_line_exact:
  assumes "nl \<notin> set L" and "rmatch import_re True L \<noteq> None"
    and "rest = [] \<or> (\<exists>l1 t. rest = nl # l1 @ t \<and> nl \<notin> set l1 \<and> (t = [] \<or> hd t = nl)
          \<and> \<not> blank l1)"
  shows "\<exists>b'. rmatch import_re True (L @ rest) = Some (b', rest)"
proof -
  from assms(2) obtain x0 where "rmatch import_re True L = Some x0" by auto
  then have m0: "matches import_re True L x0" by (rule rmatch_sound)
  from import_re_own_line [OF m0 assms(1)] have x0: "snd x0 = []"
    and own: "hd (dropWhile isspace (rev L)) \<in> {squote, dquote, CHR '';''}" by auto
  from assms(3) have r0: "rest = [] \<or> hd rest = nl" by auto
  from matches_extend [OF m0 r0] have "matches import_re True (L @ rest) (fst x0, rest)"
    by (simp add: x0)
  from rmatch_complete [OF this] obtain y where y: "rmatch import_re True (L @ rest) = Some y"
    by blast
  then have my: "matches import_re True (L @ rest) y" by (rule rmatch_sound)
  have "snd y = rest"
  proof (cases "rest = []")
    case True
    with my import_re_own_line [of True L y] assms(1) show ?thesis by simp
  next
    case False
    with assms(3) obtain l1 t where rest: "rest = nl # l1 @ t" and l1: "nl \<notin> set l1"
      and t: "t = [] \<or> hd t = nl" and nb: "\<not> blank l1" by auto
    from my have my': "matches import_re True (L @ nl # (l1 @ t)) y" by (simp add: rest)
    from import_re_in_context [OF my' assms(1)] show ?thesis
    proof
      assume "hd (dropWhile isspace (rev L)) \<in> {CHR ''t'', CHR ''m''}"
      with own show ?thesis by (auto simp: squote_def dquote_def)
    next
      assume "\<exists>M w3. L @ nl # l1 @ t = M @ w3 @ snd y \<and> nl \<notin> set M
        \<and> (\<forall>c\<in>set w3. isspace c) \<and> (snd y = [] \<or> hd (snd y) = nl)"
      then obtain M w3 where e: "M @ (w3 @ snd y) = L @ (nl # l1 @ t)" and M: "nl \<notin> set M"
        and w3: "\<forall>c\<in>set w3. isspace c" and fin: "snd y = [] \<or> hd (snd y) = nl"
        by auto
      have "\<exists>a'. L = M @ a'"
        by (rule prefix_by_class [OF e, where P = "\<lambda>c. c \<noteq> nl"]) (use M in auto)
      then obtain a' where a': "L = M @ a'" ..
      with e have e2: "a' @ (nl # l1 @ t) = w3 @ snd y" by simp
      from a' assms(1) have na: "nl \<notin> set a'" by simp
      from e2 obtain us where
        "(a' = w3 @ us \<and> us @ (nl # l1 @ t) = snd y) \<or> (a' @ us = w3 \<and> nl # l1 @ t = us @ snd y)"
        by (auto simp: append_eq_append_conv2)
      then show ?thesis
      proof
        assume A: "a' = w3 @ us \<and> us @ (nl # l1 @ t) = snd y"
        show ?thesis
        proof (cases us)
          case Nil
          with A rest show ?thesis by simp
        next
          case (Cons u us')
          with A have sy: "snd y = u # us' @ nl # l1 @ t" and "u \<in> set a'" by auto
          with fin na show ?thesis by auto
        qed
      next
        assume B: "a' @ us = w3 \<and> nl # l1 @ t = us @ snd y"
        show ?thesis
        proof (cases us)
          case Nil
          with B rest show ?thesis by simp
        next
          case (Cons u us')
          with B have e3: "l1 @ t = us' @ snd y" and "set us' \<subseteq> set w3" by auto
          with w3 have us': "\<forall>c\<in>set us'. isspace c" by auto
          have "\<exists>a''. us' = l1 @ a''"
            by (rule prefix_by_class [OF e3, where P = "\<lambda>c. c \<noteq> nl"]) (use l1 fin in auto)
          with us' have "blank l1" by (auto simp: blank_def list_all_iff)
          with nb show ?thesis by simp
        qed
      qed
    qed
  qed
  with y show ?thesis by (cases y) auto
qed

lemma join_append:
  "ls \<noteq> [] \<Longrightarrow> join [nl] (pre @ ls) = concat (map (\<lambda>l. l @ [nl]) pre) @ join [nl] ls"
  by (induction pre) (simp_all add: join_Cons_ne)

lemma re_sub_dead_prefix:
  assumes "ls \<noteq> []"
    and "\<And>l rest. l \<in> set pre \<Longrightarrow> rest = [] \<or> hd rest = nl
      \<Longrightarrow> rmatch (Bol # q) True (l @ rest) = None"
    and "\<And>l. l \<in> set pre \<Longrightarrow> nl \<notin> set l"
  shows "re_sub (Bol # q) repl True (join [nl] (pre @ ls))
      = concat (map (\<lambda>l. l @ [nl]) pre) @ re_sub (Bol # q) repl True (join [nl] ls)"
  using assms(2,3)
proof (induction pre)
  case Nil
  show ?case by simp
next
  case (Cons l pre)
  have "rmatch (Bol # q) True (l @ nl # join [nl] (pre @ ls)) = None"
    by (rule Cons.prems(1)) auto
  moreover have "nl \<notin> set l"
    by (rule Cons.prems(2)) simp
  ultimately have "re_sub (Bol # q) repl True (l @ nl # join [nl] (pre @ ls))
      = l @ nl # re_sub (Bol # q) repl True (join [nl] (pre @ ls))"
    by (rule re_sub_dead_line)
  moreover have "re_sub (Bol # q) repl True (join [nl] (pre @ ls))
      = concat (map (\<lambda>l. l @ [nl]) pre) @ re_sub (Bol # q) repl True (join [nl] ls)"
  proof (rule Cons.IH)
    fix l' rest
    assume "l' \<in> set pre" and r: "rest = [] \<or> hd rest = nl"
    then have "l' \<in> set (l # pre)" by simp
    from Cons.prems(1) [OF this r] show "rmatch (Bol # q) True (l' @ rest) = None" .
  next
    fix l'
    assume "l' \<in> set pre"
    then have "l' \<in> set (l # pre)" by simp
    from Cons.prems(2) [OF this] show "nl \<notin> set l'" .
  qed
  ultimately show ?case
    using assms(1) by (simp add: join_Cons_ne)
qed

lemma not_kw_at_nl: "\<not> kw_at ''import'' (nl # t)" and not_kw_at_Nil: "\<not> kw_at ''import'' []"
  by (simp_all add: kw_at_def nl_def)

lemma import_re_None_nl: "rmatch import_re b (nl # t) = None"
proof -
  obtain q1 where q1: "import_re = Bol # lits ''import'' @ Plus Space # q1"
    using import_re_shape by blast
  show ?thesis
    using rmatch_kw [of "''import''" q1 b "nl # t"] not_kw_at_nl [of t]
    unfolding q1 by (cases "rmatch (Bol # lits ''import'' @ Plus Space # q1) b (nl # t)") auto
qed

lemma import_re_None_Nil: "rmatch import_re b [] = None"
proof -
  obtain q1 where q1: "import_re = Bol # lits ''import'' @ Plus Space # q1"
    using import_re_shape by blast
  show ?thesis
    using rmatch_kw [of "''import''" q1 b "[]"] not_kw_at_Nil
    unfolding q1 by (cases "rmatch (Bol # lits ''import'' @ Plus Space # q1) b []") auto
qed

lemma import_re_match_nonempty:
  assumes "rmatch import_re True L \<noteq> None"
  shows "L \<noteq> []"
  using assms import_re_None_Nil by auto

lemma re_sub_import_line:
  assumes "nl \<notin> set L" and "rmatch import_re True L \<noteq> None"
    and "post = [] \<or> \<not> blank (hd post)"
    and "\<forall>l\<in>set post. nl \<notin> set l \<and> \<not> starts_kw ''import'' l"
  shows "re_sub import_re [] True (join [nl] (L # post)) = join [nl] ([] # post)"
proof (cases "post = []")
  case True
  from import_line_exact [OF assms(1,2), of "[]"] obtain b' where
    "rmatch import_re True (L @ []) = Some (b', [])" by auto
  moreover have "length ([]::string) < length (L @ [])"
    using import_re_match_nonempty [OF assms(2)] by simp
  ultimately have "re_sub import_re [] True (L @ []) = [] @ re_sub import_re [] b' []"
    by (rule re_sub_hit)
  with True show ?thesis
    by (simp add: re_sub_Nil import_re_None_Nil)
next
  case False
  obtain q1 where q1: "import_re = Bol # lits ''import'' @ Plus Space # q1"
    using import_re_shape by blast
  from False obtain l1 post' where post: "post = l1 # post'" by (cases post) auto
  with assms(3,4) have l1: "\<not> blank l1" "nl \<notin> set l1" by auto
  let ?t = "if post' = [] then [] else nl # join [nl] post'"
  have jp: "join [nl] post = l1 @ ?t"
    by (simp add: post join_Cons_ne)
  have "?t = [] \<or> hd ?t = nl" by simp
  with l1 jp have "\<exists>l t. nl # join [nl] post = nl # l @ t \<and> nl \<notin> set l
      \<and> (t = [] \<or> hd t = nl) \<and> \<not> blank l"
    by blast
  then have "\<exists>b'. rmatch import_re True (L @ nl # join [nl] post)
      = Some (b', nl # join [nl] post)"
    by (intro import_line_exact [OF assms(1,2)] disjI2)
  then obtain b' where
    "rmatch import_re True (L @ nl # join [nl] post) = Some (b', nl # join [nl] post)" ..
  moreover have "length (nl # join [nl] post) < length (L @ nl # join [nl] post)"
    using import_re_match_nonempty [OF assms(2)] by simp
  ultimately have "re_sub import_re [] True (L @ nl # join [nl] post)
      = [] @ re_sub import_re [] b' (nl # join [nl] post)"
    by (rule re_sub_hit)
  also have "\<dots> = nl # re_sub import_re [] True (join [nl] post)"
    by (simp add: re_sub_skip import_re_None_nl)
  also have "re_sub import_re [] True (join [nl] post) = join [nl] post"
    unfolding q1 by (rule re_sub_no_kw) (use False assms(4) in \<open>auto simp: nl_def\<close>)
  finally show ?thesis
    using False by (simp add: join_Cons_ne)
qed





subsection \<open>The second import substitution\<close>

lemma import_re_consumes:
  assumes "matches import_re b S x"
  shows "length (snd x) < length S"
proof -
  from import_re_inv [OF assms] obtain w1 body w2 q1 path q2 semi w3 where
    S: "S = ''import'' @ w1 @ body @ ''from'' @ w2 @ q1 # path @ q2 # semi @ w3 @ snd x"
    by blast
  show ?thesis by (subst S) simp
qed

lemma suffix_at_line_break:
  assumes "\<forall>l\<in>set ls. nl \<notin> set l" and "join [nl] ls = m @ nl # r"
  shows "\<exists>k. 0 < k \<and> k < length ls \<and> r = join [nl] (drop k ls)"
  using assms
proof (induction ls arbitrary: m)
  case Nil
  then show ?case by simp
next
  case (Cons l ls)
  show ?case
  proof (cases "ls = []")
    case True
    with Cons.prems have "nl \<in> set l" by simp
    with Cons.prems(1) show ?thesis by simp
  next
    case False
    with Cons.prems(2) have e: "l @ (nl # join [nl] ls) = m @ (nl # r)"
      by (simp add: join_Cons_ne)
    from Cons.prems(1) have nf: "nl \<notin> set l" by simp
    from e obtain us where
      "(l = m @ us \<and> us @ nl # join [nl] ls = nl # r) \<or> (l @ us = m \<and> nl # join [nl] ls = us @ nl # r)"
      by (auto simp: append_eq_append_conv2)
    then show ?thesis
    proof
      assume A: "l = m @ us \<and> us @ nl # join [nl] ls = nl # r"
      with nf have "us = []" by (cases us) auto
      with A have "r = join [nl] (drop 1 (l # ls))" by simp
      with False show ?thesis by (intro exI [of _ 1]) auto
    next
      assume B: "l @ us = m \<and> nl # join [nl] ls = us @ nl # r"
      show ?thesis
      proof (cases us)
        case Nil
        with B have "r = join [nl] (drop 1 (l # ls))" by simp
        with False show ?thesis by (intro exI [of _ 1]) auto
      next
        case (Cons u us')
        with B have "join [nl] ls = us' @ nl # r" by simp
        from Cons.IH [OF _ this] Cons.prems(1) obtain k where
          "0 < k" "k < length ls" "r = join [nl] (drop k ls)" by auto
        then show ?thesis by (intro exI [of _ "Suc k"]) auto
      qed
    qed
  qed
qed

lemma covered_drop: "covered ls \<Longrightarrow> covered (drop k ls)"
proof (induction ls arbitrary: k)
  case Nil
  then show ?case by simp
next
  case (Cons l ls)
  then show ?case by (cases k) auto
qed


lemma re_sub_import_covered:
  assumes "ls \<noteq> []" and "\<forall>l\<in>set ls. nl \<notin> set l" and "covered ls"
  shows "\<exists>ls'. ls' \<noteq> [] \<and> re_sub import_re [] True (join [nl] ls) = join [nl] ls'
    \<and> (\<forall>l\<in>set ls'. nl \<notin> set l \<and> \<not> starts_kw ''import'' l)"
  using assms
proof (induction ls rule: length_induct)
  case (1 ls)
  obtain q1 where q1: "import_re = Bol # lits ''import'' @ Plus Space # q1"
    using import_re_shape by blast
  from "1.prems"(1) obtain l rest where ls: "ls = l # rest" by (cases ls) auto
  with "1.prems" have nf: "nl \<notin> set l" and cr: "covered rest"
    and nfr: "\<forall>l\<in>set rest. nl \<notin> set l" by auto
  show ?case
  proof (cases "starts_kw ''import'' l")
    case False
    show ?thesis
    proof (cases "rest = []")
      case True
      have "rmatch (Bol # lits ''import'' @ Plus Space # q1) True (l @ []) = None"
        by (rule dead_by_kw) (use False nf in \<open>auto simp: nl_def\<close>)
      then have "re_sub import_re [] True l = l"
        using nf by (simp add: q1 re_sub_dead_last)
      with True ls False nf show ?thesis
        by (intro exI [of _ "[l]"]) simp
    next
      case ne: False
      have "rmatch (Bol # lits ''import'' @ Plus Space # q1) True (l @ nl # join [nl] rest) = None"
        by (rule dead_by_kw) (use False nf in \<open>auto simp: nl_def\<close>)
      then have "re_sub (Bol # lits ''import'' @ Plus Space # q1) [] True (l @ nl # join [nl] rest)
          = l @ nl # re_sub (Bol # lits ''import'' @ Plus Space # q1) [] True (join [nl] rest)"
        using nf by (rule re_sub_dead_line)
      then have step: "re_sub import_re [] True (join [nl] ls)
          = l @ nl # re_sub import_re [] True (join [nl] rest)"
        using ne by (simp add: q1 ls join_Cons_ne)
      from "1.IH" ls ne nfr cr obtain ls'' where ls'': "ls'' \<noteq> []"
        "re_sub import_re [] True (join [nl] rest) = join [nl] ls''"
        "\<forall>l\<in>set ls''. nl \<notin> set l \<and> \<not> starts_kw ''import'' l"
        by (metis length_Cons lessI)
      with step have "re_sub import_re [] True (join [nl] ls) = join [nl] (l # ls'')"
        by (simp add: join_Cons_ne)
      with ls'' False nf show ?thesis
        by (intro exI [of _ "l # ls''"]) simp
    qed
  next
    case True
    with "1.prems"(3) ls obtain b' r where
      rm: "rmatch import_re True (join [nl] ls) = Some (b', r)"
      by auto
    then have m: "matches import_re True (join [nl] ls) (b', r)"
      by (rule rmatch_sound)
    from import_re_consumes [OF m] have len: "length r < length (join [nl] ls)" by simp
    from import_re_inv [OF m] have fin: "r = [] \<or> hd r = nl" by auto
    from matches_suffix [OF m] obtain mm where mm: "join [nl] ls = mm @ r" by auto
    from re_sub_hit [OF rm len] have step: "re_sub import_re [] True (join [nl] ls)
        = re_sub import_re [] b' r" by simp
    show ?thesis
    proof (cases r)
      case Nil
      with step have "re_sub import_re [] True (join [nl] ls) = join [nl] [[]]"
        by (simp add: re_sub_Nil import_re_None_Nil)
      then show ?thesis
        by (intro exI [of _ "[[]]"]) (simp add: starts_kw_def)
    next
      case (Cons c r')
      with fin have c: "c = nl" by simp
      from mm Cons c have "join [nl] ls = mm @ nl # r'" by simp
      from suffix_at_line_break [OF "1.prems"(2) this] obtain k where
        k: "0 < k" "k < length ls" "r' = join [nl] (drop k ls)" by blast
      let ?ls2 = "drop k ls"
      from k have "length ?ls2 < length ls" "?ls2 \<noteq> []" by auto
      moreover have "\<forall>l\<in>set ?ls2. nl \<notin> set l"
        using "1.prems"(2) by (auto dest: in_set_dropD)
      moreover have "covered ?ls2"
        using "1.prems"(3) by (rule covered_drop)
      ultimately obtain ls'' where ls'': "ls'' \<noteq> []"
        "re_sub import_re [] True (join [nl] ?ls2) = join [nl] ls''"
        "\<forall>l\<in>set ls''. nl \<notin> set l \<and> \<not> starts_kw ''import'' l"
        using "1.IH" by blast
      from step Cons c have "re_sub import_re [] True (join [nl] ls)
          = nl # re_sub import_re [] True r'"
        by (simp add: re_sub_skip import_re_None_nl)
      with k(3) ls'' have "re_sub import_re [] True (join [nl] ls) = join [nl] ([] # ls'')"
        by (simp add: join_Cons_ne)
      with ls'' show ?thesis
        by (intro exI [of _ "[] # ls''"]) (simp add: starts_kw_def)
    qed
  qed
qed




end
